theory Spec2Isabelle
  imports Main "HOL-Library.Multiset"
begin

text \<open>
  A model of three parts of the agent proxy server: the service that appends a message to
  a thread, starts a run and polls it (\<open>AgentService.appendAndRun\<close>), the cache of the
  access token (\<open>getToken\<close>), and the route that merges the messages of two threads in
  the order of their creation. Remote calls, the clock and the built-ins of the engine
  are parameters of the functions; what a function does to the outside is recorded in
  the state that it returns.
\<close>

section \<open>JavaScript strings\<close>

text \<open>
  A JavaScript string is a sequence of UTF-16 code units. The code looks into only one
  string, the message that it trims, and this one is modelled as the list of its code
  units. All other strings are identifiers and literals that are passed on or compared
  as a whole; they are modelled as \<open>string\<close>. \<open>String.prototype.trim\<close> removes
  white space and line terminators from both ends: TAB, LF, VT, FF, CR, the space, the
  no-break space, the other space separators of Unicode (U+1680, U+2000 to U+200A, U+202F,
  U+205F, U+3000), the line and paragraph separators U+2028 and U+2029, and U+FEFF.
\<close>

type_synonym code_units = "nat list"

definition js_whitespace :: "nat \<Rightarrow> bool" where
  "js_whitespace u \<longleftrightarrow>
     u \<in> {9, 10, 11, 12, 13, 32, 160, 5760, 8232, 8233, 8239, 8287, 12288, 65279}
     \<or> (8192 \<le> u \<and> u \<le> 8202)"

definition trim :: "code_units \<Rightarrow> code_units" where
  "trim s = rev (dropWhile js_whitespace (rev (dropWhile js_whitespace s)))"

text \<open>The code units of an ASCII string.\<close>

definition utf16 :: "string \<Rightarrow> code_units" where
  "utf16 s = map of_char s"

section \<open>The agent service (Agent.ts)\<close>

text \<open>
  A run as the remote service reports it. \<open>lastError\<close> holds the text that
  \<open>JSON.stringify\<close> makes of the remote error payload.
\<close>

record run =
  run_id :: string
  run_status :: string
  lastError :: string

text \<open>
  What an awaited call can throw: an \<open>Error\<close> that this code constructs, with its
  message, or the rejection of a call to the remote service, which is propagated as it is.
\<close>

datatype js_error = Error string | Rejected string

text \<open>
  The remote calls and the delays that one invocation performs, in order:
  \<open>messages.create(threadId, role, content)\<close>, \<open>runs.create(threadId, agentId)\<close>,
  \<open>runs.get(threadId, runId)\<close> and \<open>setTimeout(r, pollMs)\<close>.
\<close>

datatype call =
    MessagesCreate string string code_units
  | RunsCreate string string
  | RunsGet string string
  | SetTimeout int

text \<open>
  The surroundings of one invocation, as a test double scripts them: the replies of the
  client (\<open>None\<close> and \<open>Inr\<close> resolve, \<open>Some\<close> and \<open>Inl\<close> reject), the
  reply to the k-th status read, and the value of the k-th evaluation of \<open>Date.now()\<close>
  in milliseconds.
\<close>

record env =
  messages_create :: "string \<Rightarrow> string \<Rightarrow> code_units \<Rightarrow> js_error option"
  runs_create :: "string \<Rightarrow> string \<Rightarrow> js_error + run"
  runs_get :: "nat \<Rightarrow> string \<Rightarrow> string \<Rightarrow> js_error + run"
  date_now :: "nat \<Rightarrow> int"

record world =
  calls :: "call list"
  reads :: nat
  ticks :: nat

definition init_world :: world where
  "init_world = \<lparr>calls = [], reads = 0, ticks = 0\<rparr>"

definition do_messages_create ::
  "env \<Rightarrow> string \<Rightarrow> string \<Rightarrow> code_units \<Rightarrow> world \<Rightarrow> js_error option \<times> world" where
  "do_messages_create e threadId role content w =
     (messages_create e threadId role content,
      w\<lparr>calls := calls w @ [MessagesCreate threadId role content]\<rparr>)"

definition do_runs_create ::
  "env \<Rightarrow> string \<Rightarrow> string \<Rightarrow> world \<Rightarrow> (js_error + run) \<times> world" where
  "do_runs_create e threadId agentId w =
     (runs_create e threadId agentId,
      w\<lparr>calls := calls w @ [RunsCreate threadId agentId]\<rparr>)"

definition do_runs_get ::
  "env \<Rightarrow> string \<Rightarrow> string \<Rightarrow> world \<Rightarrow> (js_error + run) \<times> world" where
  "do_runs_get e threadId runId w =
     (runs_get e (reads w) threadId runId,
      w\<lparr>calls := calls w @ [RunsGet threadId runId], reads := Suc (reads w)\<rparr>)"

definition do_date_now :: "env \<Rightarrow> world \<Rightarrow> int \<times> world" where
  "do_date_now e w = (date_now e (ticks w), w\<lparr>ticks := Suc (ticks w)\<rparr>)"

definition do_set_timeout :: "int \<Rightarrow> world \<Rightarrow> world" where
  "do_set_timeout pollMs w = w\<lparr>calls := calls w @ [SetTimeout pollMs]\<rparr>"

text \<open>
  The condition of the polling loop,
  \<open>(cur.status === "queued" || cur.status === "in_progress") && Date.now() < end\<close>:
  the clock is read only when the status is one of the two.
\<close>

definition pending :: "run \<Rightarrow> bool" where
  "pending cur \<longleftrightarrow> run_status cur = ''queued'' \<or> run_status cur = ''in_progress''"

definition while_cond :: "env \<Rightarrow> int \<Rightarrow> run \<Rightarrow> world \<Rightarrow> bool \<times> world" where
  "while_cond e end_ms cur w =
     (if pending cur then (case do_date_now e w of (t, w1) \<Rightarrow> (t < end_ms, w1))
      else (False, w))"

text \<open>
  The polling loop. The fuel bounds the number of times the body runs; the result is
  \<open>None\<close> when the loop would run its body once more than the fuel allows. The world
  is returned in either case.
\<close>

fun poll ::
  "env \<Rightarrow> nat \<Rightarrow> string \<Rightarrow> string \<Rightarrow> int \<Rightarrow> int \<Rightarrow> run \<Rightarrow> world
     \<Rightarrow> (js_error + run) option \<times> world" where
  "poll e 0 threadId runId pollMs end_ms cur w =
     (case while_cond e end_ms cur w of
        (go, w1) \<Rightarrow> if go then (None, w1) else (Some (Inr cur), w1))"
| "poll e (Suc fuel) threadId runId pollMs end_ms cur w =
     (case while_cond e end_ms cur w of
        (go, w1) \<Rightarrow>
          if go then
            (case do_runs_get e threadId runId (do_set_timeout pollMs w1) of
               (Inl err, w2) \<Rightarrow> (Some (Inl err), w2)
             | (Inr cur', w2) \<Rightarrow> poll e fuel threadId runId pollMs end_ms cur' w2)
          else (Some (Inr cur), w1))"

record run_result =
  runId :: string
  status :: string

text \<open>
  \<open>appendAndRun(threadId, message, pollMs, timeoutMs)\<close> of the service bound to
  \<open>agentId\<close>. The parameter \<open>message\<close> has type \<open>string\<close>, so \<open>message?.trim()\<close>
  is the trimmed string, and the empty string is the only string that is falsy. Times are
  integers, in milliseconds; the defaults are \<open>pollMs = 1000\<close> and
  \<open>timeoutMs = 120000\<close>.
\<close>

definition appendAndRun ::
  "env \<Rightarrow> nat \<Rightarrow> string \<Rightarrow> string \<Rightarrow> code_units \<Rightarrow> int \<Rightarrow> int \<Rightarrow> world
     \<Rightarrow> (js_error + run_result) option \<times> world" where
  "appendAndRun e fuel agentId threadId message pollMs timeoutMs w =
     (if trim message = [] then (Some (Inl (Error ''message is empty'')), w)
      else
        case do_messages_create e threadId ''user'' message w of
          (Some err, w1) \<Rightarrow> (Some (Inl err), w1)
        | (None, w1) \<Rightarrow>
            (case do_runs_create e threadId agentId w1 of
               (Inl err, w2) \<Rightarrow> (Some (Inl err), w2)
             | (Inr r, w2) \<Rightarrow>
                 (case do_date_now e w2 of
                    (t0, w3) \<Rightarrow>
                      (case do_runs_get e threadId (run_id r) w3 of
                         (Inl err, w4) \<Rightarrow> (Some (Inl err), w4)
                       | (Inr cur, w4) \<Rightarrow>
                           (case poll e fuel threadId (run_id r) pollMs (t0 + timeoutMs) cur w4 of
                              (None, w5) \<Rightarrow> (None, w5)
                            | (Some (Inl err), w5) \<Rightarrow> (Some (Inl err), w5)
                            | (Some (Inr cur'), w5) \<Rightarrow>
                                if run_status cur' = ''failed''
                                then (Some (Inl (Error (''run failed: '' @ lastError cur'))), w5)
                                else (Some (Inr \<lparr>runId = run_id cur', status = run_status cur'\<rparr>),
                                      w5))))))"

text \<open>Counting what an invocation did.\<close>

fun is_append :: "call \<Rightarrow> bool" where
  "is_append (MessagesCreate t r c) = True"
| "is_append _ = False"

fun is_run_create :: "call \<Rightarrow> bool" where
  "is_run_create (RunsCreate t a) = True"
| "is_run_create _ = False"

fun is_status_read :: "call \<Rightarrow> bool" where
  "is_status_read (RunsGet t r) = True"
| "is_status_read _ = False"

fun is_delay :: "call \<Rightarrow> bool" where
  "is_delay (SetTimeout ms) = True"
| "is_delay _ = False"

definition count_calls :: "(call \<Rightarrow> bool) \<Rightarrow> world \<Rightarrow> nat" where
  "count_calls p w = length (filter p (calls w))"

text \<open>
  A test double of the remote service and of the clock: every call resolves, the k-th
  status read reports the k-th status of the list (the last one from then on), the remote
  replies at once and every delay lasts 1000 milliseconds, so the clock reads
  0, 0, 1000, 2000, ...
\<close>

definition double_run :: "string \<Rightarrow> run" where
  "double_run s = \<lparr>run_id = ''run_1'', run_status = s, lastError = ''null''\<rparr>"

definition polling_double :: "string list \<Rightarrow> env" where
  "polling_double statuses =
     \<lparr>messages_create = (\<lambda>threadId role content. None),
      runs_create = (\<lambda>threadId agentId. Inr (double_run ''queued'')),
      runs_get = (\<lambda>k threadId runId.
         Inr (double_run (if k < length statuses then statuses ! k else last statuses))),
      date_now = (\<lambda>k. 1000 * int (k - 1))\<rparr>"

text \<open>The same double, except that appending the message is rejected.\<close>

definition rejecting_double :: env where
  "rejecting_double =
     (polling_double [''completed''])
       \<lparr>messages_create := (\<lambda>threadId role content. Some (Rejected ''ECONNRESET''))\<rparr>"

text \<open>
  The world of a fresh invocation when the loop is entered: the message was appended, the
  run was created, the clock was read once and the status was read once.
\<close>

definition polling_world :: "string \<Rightarrow> string \<Rightarrow> code_units \<Rightarrow> string \<Rightarrow> world" where
  "polling_world agentId threadId message rid =
     \<lparr>calls = [MessagesCreate threadId ''user'' message, RunsCreate threadId agentId,
               RunsGet threadId rid],
      reads = 1, ticks = 1\<rparr>"

section \<open>The credential provider (utils/auth.ts)\<close>

record AuthConfig =
  tenantId :: string
  clientId :: string
  clientSecret :: string

text \<open>
  The body of a token response: \<open>access_token\<close> and \<open>expires_in\<close>, each of which
  may be missing. The outcome of \<open>axios.post\<close>: it rejects because no response arrived
  (a transport failure), it rejects because the response has a status that is not a
  success, or it resolves with a response whose \<open>data\<close> is a body or is \<open>null\<close> or
  \<open>undefined\<close>.
\<close>

record token_response =
  access_token :: "string option"
  expires_in :: "int option"

datatype post_result =
    NoResponse
  | ErrorResponse
  | PostResolved "token_response option"

type_synonym form = "(string \<times> string) list"

text \<open>
  The two variables of the module, \<open>cachedToken\<close> (\<open>None\<close> for \<open>null\<close> and
  \<open>undefined\<close>) and \<open>tokenExpireAt\<close> in seconds, and the requests posted so far.
\<close>

record auth_state =
  cachedToken :: "string option"
  tokenExpireAt :: int
  posts :: "(string \<times> form) list"

definition init_auth :: auth_state where
  "init_auth = \<lparr>cachedToken = None, tokenExpireAt = 0, posts = []\<rparr>"

text \<open>What \<open>getToken\<close> resolves to when it is not \<open>null\<close>; \<open>expireAt\<close> is the
  property \<open>tokenExpireAt\<close> of the result.\<close>

record token =
  accessToken :: "string option"
  expireAt :: int

definition tokenEndpoint :: "AuthConfig \<Rightarrow> string" where
  "tokenEndpoint config =
     ''https://login.microsoftonline.com/'' @ tenantId config @ ''/oauth2/v2.0/token''"

definition token_params :: "AuthConfig \<Rightarrow> form" where
  "token_params config =
     [(''grant_type'', ''client_credentials''),
      (''client_id'', clientId config),
      (''client_secret'', clientSecret config),
      (''scope'', clientId config @ ''/.default'')]"

text \<open>
  The test \<open>cachedToken && tokenExpireAt > now + 60\<close>; the empty string is falsy.
\<close>

definition cache_fresh :: "auth_state \<Rightarrow> int \<Rightarrow> bool" where
  "cache_fresh s now \<longleftrightarrow>
     cachedToken s \<noteq> None \<and> cachedToken s \<noteq> Some [] \<and> tokenExpireAt s > now + 60"

text \<open>
  \<open>getToken(config)\<close>, given what \<open>axios.post\<close> does and the value of
  \<open>Date.now()\<close> in milliseconds. The result \<open>None\<close> is \<open>null\<close>. Everything that
  is thrown inside \<open>try\<close> is caught: the rejection of the request, the \<open>TypeError\<close>
  of destructuring a missing body, and the \<open>RangeError\<close> of \<open>toISOString\<close> in the
  log line when \<open>tokenExpireAt * 1000\<close> is not a time value, which comes after the two
  assignments. \<open>expires_in || 3600\<close> replaces a missing value and 0.
\<close>

definition getToken ::
  "(string \<Rightarrow> form \<Rightarrow> post_result) \<Rightarrow> int \<Rightarrow> AuthConfig \<Rightarrow> auth_state
     \<Rightarrow> token option \<times> auth_state" where
  "getToken post now_ms config s =
     (let now = now_ms div 1000 in
      if cache_fresh s now
      then (Some \<lparr>accessToken = cachedToken s, expireAt = tokenExpireAt s\<rparr>, s)
      else
        let s1 = s\<lparr>posts := posts s @ [(tokenEndpoint config, token_params config)]\<rparr> in
        case post (tokenEndpoint config) (token_params config) of
          NoResponse \<Rightarrow> (None, s1)
        | ErrorResponse \<Rightarrow> (None, s1)
        | PostResolved None \<Rightarrow> (None, s1)
        | PostResolved (Some d) \<Rightarrow>
            let ttl = (case expires_in d of
                         None \<Rightarrow> 3600
                       | Some n \<Rightarrow> if n = 0 then 3600 else n);
                s2 = s1\<lparr>cachedToken := access_token d, tokenExpireAt := now + ttl\<rparr>
            in if \<bar>(now + ttl) * 1000\<bar> > 8640000000000000 then (None, s2)
               else (Some \<lparr>accessToken = access_token d, expireAt = now + ttl\<rparr>, s2))"

text \<open>
  A sequence of calls, each with its clock reading, the behaviour of the identity
  endpoint at that moment and its configuration. The result lists, for every call, the
  state before it, the call, what it returned and the state after it.
\<close>

type_synonym token_call = "int \<times> (string \<Rightarrow> form \<Rightarrow> post_result) \<times> AuthConfig"

fun getTokens ::
  "auth_state \<Rightarrow> token_call list
     \<Rightarrow> (auth_state \<times> token_call \<times> token option \<times> auth_state) list" where
  "getTokens s [] = []"
| "getTokens s ((now_ms, post, config) # cs) =
     (case getToken post now_ms config s of
        (res, s') \<Rightarrow> (s, (now_ms, post, config), res, s') # getTokens s' cs)"

text \<open>A configuration and endpoints for the examples.\<close>

definition test_config :: AuthConfig where
  "test_config = \<lparr>tenantId = ''tenant'', clientId = ''client'', clientSecret = ''secret''\<rparr>"

definition granting :: "string \<Rightarrow> string \<Rightarrow> form \<Rightarrow> post_result" where
  "granting tok url body =
     PostResolved (Some \<lparr>access_token = Some tok, expires_in = Some 3600\<rparr>)"

definition unreachable :: "string \<Rightarrow> form \<Rightarrow> post_result" where
  "unreachable url body = NoResponse"


section \<open>The message routes of the server\<close>

subsection \<open>JavaScript values and the built-ins the code relies on\<close>

text \<open>
  The values that a field of a message or of a request body can hold. A JavaScript number
  is a double; the model has the doubles whose value is an integer, \<open>JNum n\<close> being
  the double of value \<open>n\<close>. Numbers with a fraction, the infinities and \<open>NaN\<close>
  are outside the model. A \<open>Date\<close> object is given by its time value in milliseconds,
  \<open>None\<close> for an invalid date; any other object by its fields. A message is an object
  of the second kind.
\<close>

datatype jsval =
    JUndefined
  | JNull
  | JBool bool
  | JNum int
  | JStr string
  | JDate "int option"
  | JObj "(string \<times> jsval) list"

type_synonym message = "(string \<times> jsval) list"

text \<open>
  Arithmetic on doubles rounds the exact result to the nearest double, ties to the one
  with an even significand. An integer of magnitude up to \<open>2^53\<close> is a double. A
  larger one of \<open>b\<close> bits lies between the multiples of \<open>2^(b - 53)\<close>, which are
  the doubles of its range, and is rounded to the nearer of the two. Beyond the largest
  double (from \<open>2^1024 - 2^970\<close> on) the result of the code is an infinity, which the
  model has not.
\<close>

fun bit_length :: "nat \<Rightarrow> nat" where
  "bit_length n = (if n = 0 then 0 else Suc (bit_length (n div 2)))"

declare bit_length.simps [simp del]

definition round_double :: "int \<Rightarrow> int" where
  "round_double x =
     (if \<bar>x\<bar> \<le> 9007199254740992 then x
      else
        let a = nat \<bar>x\<bar>;
            q = 2 ^ (bit_length a - 53);
            r = a div q;
            m = a mod q;
            r' = (if q < 2 * m \<or> (2 * m = q \<and> odd r) then r + 1 else r)
        in sgn x * int (r' * q))"

text \<open>
  Three built-ins are left to the engine: \<open>String.prototype.localeCompare\<close>, whose
  order depends on the locale; \<open>new Date(v).getTime()\<close> for a \<open>v\<close> that is not
  a \<open>Date\<close>, with \<open>None\<close> for \<open>NaN\<close>; and the conversion \<open>String(v)\<close> of
  a value that is not a string.
\<close>

record host =
  localeCompare :: "string \<Rightarrow> string \<Rightarrow> int"
  newDateGetTime :: "jsval \<Rightarrow> int option"
  toString :: "jsval \<Rightarrow> string"

text \<open>
  What ECMAScript asks of a comparison function: swapping the arguments swaps the sign,
  and the order is transitive. \<open>localeCompare\<close> is required to be such a total order
  on strings.
\<close>

definition consistent :: "('a \<Rightarrow> 'a \<Rightarrow> int) \<Rightarrow> bool" where
  "consistent cmp \<longleftrightarrow>
     (\<forall>a b. (cmp a b < 0) = (0 < cmp b a)) \<and>
     (\<forall>a b c. cmp a b \<le> 0 \<and> cmp b c \<le> 0 \<longrightarrow> cmp a c \<le> 0)"

definition String :: "host \<Rightarrow> jsval \<Rightarrow> string" where
  "String h v = (case v of JStr s \<Rightarrow> s | _ \<Rightarrow> toString h v)"

text \<open>\<open>new Date(v).getTime()\<close>: a \<open>Date\<close> is copied with its time value.\<close>

definition getTime :: "host \<Rightarrow> jsval \<Rightarrow> int option" where
  "getTime h v = (case v of JDate t \<Rightarrow> t | _ \<Rightarrow> newDateGetTime h v)"

text \<open>\<open>m?.[k]\<close> on an object: the value of the field, \<open>undefined\<close> when it is missing.\<close>

definition js_get :: "message \<Rightarrow> string \<Rightarrow> jsval" where
  "js_get m k = (case map_of m k of Some v \<Rightarrow> v | None \<Rightarrow> JUndefined)"

text \<open>\<open>v == null\<close>, the operator \<open>??\<close>, and truthiness.\<close>

definition nullish :: "jsval \<Rightarrow> bool" where
  "nullish v \<longleftrightarrow> v = JNull \<or> v = JUndefined"

definition coalesce :: "jsval \<Rightarrow> jsval \<Rightarrow> jsval" where
  "coalesce a b = (if nullish a then b else a)"

fun truthy :: "jsval \<Rightarrow> bool" where
  "truthy JUndefined = False"
| "truthy JNull = False"
| "truthy (JBool b) = b"
| "truthy (JNum n) = (n \<noteq> 0)"
| "truthy (JStr s) = (s \<noteq> [])"
| "truthy (JDate t) = True"
| "truthy (JObj fs) = True"

text \<open>
  \<open>Array.prototype.sort(comparefn)\<close> is stable, and for a consistent comparison
  function every stable sort yields the same array: the elements in ascending order,
  those that compare equal in their original order. Insertion from the right, each
  element placed before the first one it does not exceed, computes it. (For a function
  that is not consistent, ECMAScript leaves the order to the implementation.) The arrays
  sorted here hold objects, so no element is \<open>undefined\<close>.
\<close>

fun insert_by :: "('a \<Rightarrow> 'a \<Rightarrow> int) \<Rightarrow> 'a \<Rightarrow> 'a list \<Rightarrow> 'a list" where
  "insert_by cmp x [] = [x]"
| "insert_by cmp x (y # ys) = (if cmp x y \<le> 0 then x # y # ys else y # insert_by cmp x ys)"

definition js_sort :: "('a \<Rightarrow> 'a \<Rightarrow> int) \<Rightarrow> 'a list \<Rightarrow> 'a list" where
  "js_sort cmp xs = foldr (insert_by cmp) xs []"

subsection \<open>Creation time and order of messages\<close>

definition CREATED_KEYS :: "string list" where
  "CREATED_KEYS = [''created_at'', ''createdAt'', ''created'', ''createTime'', ''timestamp'']"

text \<open>
  The loop of \<open>pickCreatedMs\<close> over the keys that are left. \<open>now\<close> is what
  \<open>Date.now()\<close> returns if the loop ends without a result. A time that
  \<open>getTime\<close> yields is finite; \<open>NaN\<close> is the only other result. The product
  \<open>v * 1000\<close> is a product of doubles.
\<close>

fun pickCreatedMs_from :: "host \<Rightarrow> int \<Rightarrow> message \<Rightarrow> string list \<Rightarrow> int" where
  "pickCreatedMs_from h now m [] = now"
| "pickCreatedMs_from h now m (k # ks) =
     (let v = js_get m k in
      if nullish v then pickCreatedMs_from h now m ks
      else
        case v of
          JNum n \<Rightarrow> if n < 1000000000000 then round_double (n * 1000) else n
        | _ \<Rightarrow>
            (case getTime h v of
               Some t \<Rightarrow> t
             | None \<Rightarrow> pickCreatedMs_from h now m ks))"

definition pickCreatedMs :: "host \<Rightarrow> int \<Rightarrow> message \<Rightarrow> int" where
  "pickCreatedMs h now m = pickCreatedMs_from h now m CREATED_KEYS"

text \<open>\<open>String(a?.id ?? a?._id ?? "")\<close>.\<close>

definition id_of :: "host \<Rightarrow> message \<Rightarrow> string" where
  "id_of h a = String h (coalesce (js_get a ''id'') (coalesce (js_get a ''_id'') (JStr '''')))"

text \<open>
  The id of a message in the words of the specification, for ids that are strings: the
  field \<open>id\<close>; when \<open>id\<close> is absent (missing, \<open>undefined\<close> or \<open>null\<close>) the
  alternate field \<open>_id\<close>; when both are absent the empty string.
\<close>

definition absent :: "jsval option \<Rightarrow> bool" where
  "absent v \<longleftrightarrow> v = None \<or> v = Some JUndefined \<or> v = Some JNull"

definition has_id :: "message \<Rightarrow> string \<Rightarrow> bool" where
  "has_id m s \<longleftrightarrow>
     map_of m ''id'' = Some (JStr s)
     \<or> (absent (map_of m ''id'') \<and> map_of m ''_id'' = Some (JStr s))
     \<or> (absent (map_of m ''id'') \<and> absent (map_of m ''_id'') \<and> s = [])"

text \<open>
  \<open>byCreatedAsc(a, b)\<close>; \<open>now_a\<close> and \<open>now_b\<close> are the clock readings of the two
  calls of \<open>pickCreatedMs\<close>. The difference \<open>ta - tb\<close> is a difference of doubles.
\<close>

definition byCreatedAsc :: "host \<Rightarrow> int \<Rightarrow> int \<Rightarrow> message \<Rightarrow> message \<Rightarrow> int" where
  "byCreatedAsc h now_a now_b a b =
     (let ta = pickCreatedMs h now_a a; tb = pickCreatedMs h now_b b in
      if ta \<noteq> tb then round_double (ta - tb)
      else localeCompare h (id_of h a) (id_of h b))"

text \<open>
  \<open>xs.sort(byCreatedAsc)\<close>, which the specification calls \<open>orderMessages\<close>. One
  clock reading \<open>now\<close> serves the whole sort: the clock is taken not to advance while
  an array is sorted, and then \<open>byCreatedAsc\<close> is a function of its two arguments.
\<close>

definition orderMessages :: "host \<Rightarrow> int \<Rightarrow> message list \<Rightarrow> message list" where
  "orderMessages h now xs = js_sort (byCreatedAsc h now now) xs"

subsection \<open>The route /node/agent/messages\<close>

text \<open>The fields that the handler takes from the request body.\<close>

record messages_body =
  paramThreadId :: jsval
  summaryThreadId :: jsval
  limit :: jsval

text \<open>
  The responses: 503 when the agents are not ready, 400 when both thread ids are falsy,
  500 when listing the messages of a thread fails, and otherwise the JSON object with
  \<open>paramThreadId\<close>, \<open>summaryThreadId\<close>, \<open>mergedCount\<close> and \<open>messages\<close>.
  The handler is given the host, the clock reading of the sort, whether the agents are
  ready, and \<open>listMessages\<close> of the two services.
\<close>

datatype response =
    NotReady
  | BadRequest
  | InternalError
  | Merged jsval jsval nat "message list"

text \<open>\<open>id ? service.listMessages(id) : Promise.resolve([])\<close>.\<close>

definition list_if :: "(jsval \<Rightarrow> js_error + message list) \<Rightarrow> jsval \<Rightarrow> js_error + message list" where
  "list_if listMessages threadId = (if truthy threadId then listMessages threadId else Inr [])"

text \<open>
  \<open>typeof limit === "number" && limit > 0 ? merged.slice(-limit) : merged\<close>;
  \<open>slice(-n)\<close> starts at index \<open>max (length - n) 0\<close>.
\<close>

definition limited :: "jsval \<Rightarrow> 'a list \<Rightarrow> 'a list" where
  "limited lim merged =
     (case lim of
        JNum n \<Rightarrow> if n > 0 then drop (nat (int (length merged) - n)) merged else merged
      | _ \<Rightarrow> merged)"

definition messages_handler ::
  "host \<Rightarrow> int \<Rightarrow> bool \<Rightarrow> (jsval \<Rightarrow> js_error + message list)
     \<Rightarrow> (jsval \<Rightarrow> js_error + message list) \<Rightarrow> messages_body \<Rightarrow> response" where
  "messages_handler h now ready listParam listSummary body =
     (if \<not> ready then NotReady
      else if \<not> truthy (paramThreadId body) \<and> \<not> truthy (summaryThreadId body) then BadRequest
      else
        case (list_if listParam (paramThreadId body),
              list_if listSummary (summaryThreadId body)) of
          (Inr rawParam, Inr rawSummary) \<Rightarrow>
            (let merged = orderMessages h now (rawParam @ rawSummary);
                 lim = limited (limit body) merged
             in Merged (coalesce (paramThreadId body) JNull)
                  (coalesce (summaryThreadId body) JNull) (length lim) lim)
        | _ \<Rightarrow> InternalError)"

subsection \<open>A host and messages for the examples\<close>

text \<open>
  A host that compares strings code unit by code unit, parses no date and converts every
  value that is not a string to the empty string.
\<close>

fun compare_code_units :: "string \<Rightarrow> string \<Rightarrow> int" where
  "compare_code_units [] [] = 0"
| "compare_code_units [] (y # ys) = - 1"
| "compare_code_units (x # xs) [] = 1"
| "compare_code_units (x # xs) (y # ys) =
     (if x = y then compare_code_units xs ys
      else if (of_char x :: nat) < of_char y then - 1 else 1)"

definition test_host :: host where
  "test_host = \<lparr>localeCompare = compare_code_units,
                 newDateGetTime = (\<lambda>v. None),
                 toString = (\<lambda>v. [])\<rparr>"

text \<open>
  A host whose \<open>localeCompare\<close> orders strings of ASCII letters as the default
  collation of an engine with ICU does: first by the letters without regard to case, and
  among strings that differ in case only, lower case before upper case at the first
  difference.
\<close>

definition letter_key :: "char \<Rightarrow> nat" where
  "letter_key c =
     (let n = of_char c in if 65 \<le> n \<and> n \<le> 90 then n + 32 else n)"

fun compare_keys :: "string \<Rightarrow> string \<Rightarrow> int" where
  "compare_keys [] [] = 0"
| "compare_keys [] (y # ys) = - 1"
| "compare_keys (x # xs) [] = 1"
| "compare_keys (x # xs) (y # ys) =
     (if letter_key x = letter_key y then compare_keys xs ys
      else if letter_key x < letter_key y then - 1 else 1)"

definition compare_letters :: "string \<Rightarrow> string \<Rightarrow> int" where
  "compare_letters a b =
     (if compare_keys a b \<noteq> 0 then compare_keys a b else compare_code_units b a)"

definition letters_host :: host where
  "letters_host = \<lparr>localeCompare = compare_letters,
                    newDateGetTime = (\<lambda>v. None),
                    toString = (\<lambda>v. [])\<rparr>"

text \<open>A message with an id and a creation time in \<open>created_at\<close>, and one with an id only.\<close>

definition timed :: "string \<Rightarrow> int \<Rightarrow> message" where
  "timed i t = [(''id'', JStr i), (''created_at'', JNum t)]"

definition untimed :: "string \<Rightarrow> message" where
  "untimed i = [(''id'', JStr i)]"

section \<open>Properties of the agent service\<close>

subsection \<open>Auxiliary facts about trimming and the polling loop\<close>

lemma dropWhile_all: "(\<forall>x \<in> set (dropWhile P s). P x) \<longleftrightarrow> (\<forall>x \<in> set s. P x)"
  by (induction s) auto

lemma trim_empty_iff: "trim s = [] \<longleftrightarrow> (\<forall>c \<in> set s. js_whitespace c)"
  by (simp add: trim_def dropWhile_all)

lemma trim_hello: "trim (utf16 ''hello'') \<noteq> []"
  by (simp add: trim_def js_whitespace_def utf16_def)

lemma poll_not_pending:
  "\<not> pending cur \<Longrightarrow> poll e fuel tid rid p end_ms cur w = (Some (Inr cur), w)"
  by (cases fuel) (simp_all add: while_cond_def)

lemma poll_calls:
  "\<exists>ext. calls (snd (poll e fuel tid rid p end_ms cur w)) = calls w @ ext \<and>
         (\<forall>c \<in> set ext. is_delay c \<or> is_status_read c)"
proof (induction fuel arbitrary: cur w)
  case 0
  then show ?case
    by (auto simp: while_cond_def do_date_now_def split: prod.splits)
next
  case (Suc fuel)
  show ?case
  proof (cases "fst (while_cond e end_ms cur w)")
    case False
    then show ?thesis
      by (auto simp: while_cond_def do_date_now_def split: prod.splits if_splits)
  next
    case True
    let ?w1 = "snd (while_cond e end_ms cur w)"
    let ?g = "do_runs_get e tid rid (do_set_timeout p ?w1)"
    have c1: "calls ?w1 = calls w"
      by (simp add: while_cond_def do_date_now_def)
    have c2: "calls (snd ?g) = calls w @ [SetTimeout p, RunsGet tid rid]"
      by (simp add: do_runs_get_def do_set_timeout_def c1)
    show ?thesis
    proof (cases "fst ?g")
      case (Inl err)
      with True have "poll e (Suc fuel) tid rid p end_ms cur w = (Some (Inl err), snd ?g)"
        by (simp add: case_prod_beta)
      then show ?thesis by (simp add: c2)
    next
      case (Inr cur')
      with True have "poll e (Suc fuel) tid rid p end_ms cur w =
          poll e fuel tid rid p end_ms cur' (snd ?g)"
        by (simp add: case_prod_beta)
      moreover obtain ext where "calls (snd (poll e fuel tid rid p end_ms cur' (snd ?g))) =
          calls (snd ?g) @ ext" and "\<forall>c \<in> set ext. is_delay c \<or> is_status_read c"
        using Suc.IH by blast
      ultimately show ?thesis by (simp add: c2)
    qed
  qed
qed

lemma poll_timeout:
  assumes "pending cur" and "n \<le> fuel"
    and "\<forall>k<n. runs_get e (reads w + k) tid rid = Inr (rs k) \<and> pending (rs k)"
    and "\<forall>k<n. date_now e (ticks w + k) < end_ms"
    and "\<not> date_now e (ticks w + n) < end_ms"
  shows "poll e fuel tid rid p end_ms cur w =
           (Some (Inr (if n = 0 then cur else rs (n - 1))),
            \<lparr>calls = calls w @ concat (replicate n [SetTimeout p, RunsGet tid rid]),
             reads = reads w + n, ticks = ticks w + Suc n\<rparr>)"
  using assms
proof (induction n arbitrary: fuel cur w rs)
  case 0
  then show ?case
    by (cases fuel) (simp_all add: while_cond_def do_date_now_def)
next
  case (Suc n)
  then obtain fuel' where fuel: "fuel = Suc fuel'" and le: "n \<le> fuel'"
    by (cases fuel) auto
  let ?w2 = "snd (do_runs_get e tid rid (do_set_timeout p (snd (do_date_now e w))))"
  have r0: "runs_get e (reads w) tid rid = Inr (rs 0)" and p0: "pending (rs 0)"
    using Suc.prems(3) by auto
  have t0: "date_now e (ticks w) < end_ms"
    using Suc.prems(4) by auto
  have step: "poll e fuel tid rid p end_ms cur w = poll e fuel' tid rid p end_ms (rs 0) ?w2"
    using Suc.prems(1) r0 t0
    by (simp add: fuel while_cond_def do_date_now_def do_runs_get_def do_set_timeout_def)
  have rd: "reads ?w2 = Suc (reads w)" and tk: "ticks ?w2 = Suc (ticks w)"
    and cl: "calls ?w2 = calls w @ [SetTimeout p, RunsGet tid rid]"
    by (simp_all add: do_date_now_def do_runs_get_def do_set_timeout_def)
  have "poll e fuel' tid rid p end_ms (rs 0) ?w2 =
          (Some (Inr (if n = 0 then rs 0 else (\<lambda>k. rs (Suc k)) (n - 1))),
            \<lparr>calls = calls ?w2 @ concat (replicate n [SetTimeout p, RunsGet tid rid]),
             reads = reads ?w2 + n, ticks = ticks ?w2 + Suc n\<rparr>)"
  proof (rule Suc.IH [OF p0 le])
    show "\<forall>k<n. runs_get e (reads ?w2 + k) tid rid = Inr (rs (Suc k)) \<and> pending (rs (Suc k))"
      using Suc.prems(3) by (auto simp: rd)
    show "\<forall>k<n. date_now e (ticks ?w2 + k) < end_ms"
      using Suc.prems(4) by (auto simp: tk)
    show "\<not> date_now e (ticks ?w2 + n) < end_ms"
      using Suc.prems(5) by (simp add: tk)
  qed
  then show ?case
    unfolding step by (cases n) (simp_all add: rd tk cl)
qed

lemma appendAndRun_polling:
  assumes "trim message \<noteq> []"
    and "messages_create e threadId ''user'' message = None"
    and "runs_create e threadId agentId = Inr r"
    and "runs_get e 0 threadId (run_id r) = Inr cur"
  shows "appendAndRun e fuel agentId threadId message pollMs timeoutMs init_world =
     (case poll e fuel threadId (run_id r) pollMs (date_now e 0 + timeoutMs) cur
             (polling_world agentId threadId message (run_id r)) of
        (None, w5) \<Rightarrow> (None, w5)
      | (Some (Inl err), w5) \<Rightarrow> (Some (Inl err), w5)
      | (Some (Inr cur'), w5) \<Rightarrow>
          if run_status cur' = ''failed''
          then (Some (Inl (Error (''run failed: '' @ lastError cur'))), w5)
          else (Some (Inr \<lparr>runId = run_id cur', status = run_status cur'\<rparr>), w5))"
  using assms
  by (simp add: appendAndRun_def do_messages_create_def do_runs_create_def do_date_now_def
      do_runs_get_def init_world_def polling_world_def)

lemma polled_call: "is_delay c \<or> is_status_read c \<Longrightarrow> \<not> is_append c \<and> \<not> is_run_create c"
  by (cases c) simp_all

lemma poll_filter:
  assumes "\<And>c. is_delay c \<or> is_status_read c \<Longrightarrow> \<not> p c"
  shows "filter p (calls (snd (poll e fuel tid rid pm end_ms cur w))) = filter p (calls w)"
proof -
  obtain ext where "calls (snd (poll e fuel tid rid pm end_ms cur w)) = calls w @ ext"
    and "\<forall>c \<in> set ext. is_delay c \<or> is_status_read c"
    using poll_calls by blast
  then show ?thesis
    using assms by (simp add: filter_empty_conv)
qed

lemma poll_reads:
  "length (filter is_status_read (calls w))
     \<le> length (filter is_status_read (calls (snd (poll e fuel tid rid pm end_ms cur w))))"
proof -
  obtain ext where "calls (snd (poll e fuel tid rid pm end_ms cur w)) = calls w @ ext"
    using poll_calls by blast
  then show ?thesis by simp
qed

lemma appendAndRun_polling_world:
  assumes "trim message \<noteq> []"
    and "messages_create e threadId ''user'' message = None"
    and "runs_create e threadId agentId = Inr r"
    and "runs_get e 0 threadId (run_id r) = Inr cur"
  shows "snd (appendAndRun e fuel agentId threadId message pollMs timeoutMs init_world) =
     snd (poll e fuel threadId (run_id r) pollMs (date_now e 0 + timeoutMs) cur
             (polling_world agentId threadId message (run_id r)))"
  unfolding appendAndRun_polling [OF assms]
  by (simp split: prod.splits option.splits sum.splits)

subsection \<open>Blank messages\<close>

text \<open>
  C7. A message that is empty or consists of white space only makes \<open>appendAndRun\<close>
  throw \<open>Error("message is empty")\<close>, the InvalidArgument signal, and leaves the
  world as it was: no append, no run creation, no status read, no clock read.
\<close>

theorem appendAndRun_empty_message:
  assumes "\<forall>c \<in> set message. js_whitespace c"
  shows "appendAndRun e fuel agentId threadId message pollMs timeoutMs w =
           (Some (Inl (Error ''message is empty'')), w)"
  using assms by (simp add: appendAndRun_def trim_empty_iff)

text \<open>A message of a space, a tab, a line feed and an ideographic space.\<close>

theorem appendAndRun_empty_message_witness:
  "appendAndRun (polling_double [''completed'']) 0 ''agent'' ''thread''
      [32, 9, 10, 12288] 1000 120000 init_world =
     (Some (Inl (Error ''message is empty'')), init_world)
   \<and> calls init_world = []"
  using appendAndRun_empty_message [of "[32, 9, 10, 12288]"]
  by (simp add: js_whitespace_def init_world_def)

subsection \<open>Polling until the run completes\<close>

text \<open>
  C1, as amended. If the append and the run creation resolve, the first two status reads
  report \<open>in_progress\<close> and the third reports \<open>completed\<close>, and the clock reads
  less than \<open>end = Date.now() + timeoutMs\<close> at the two evaluations of the loop
  condition that follow the first two reads, then \<open>appendAndRun\<close> returns with status
  \<open>completed\<close> after exactly three status reads. Two rounds of the loop body are
  enough fuel.
\<close>

theorem appendAndRun_three_reads:
  assumes "trim message \<noteq> []"
    and "messages_create e threadId ''user'' message = None"
    and "runs_create e threadId agentId = Inr r"
    and "runs_get e 0 threadId (run_id r) = Inr r0" and "run_status r0 = ''in_progress''"
    and "runs_get e 1 threadId (run_id r) = Inr r1" and "run_status r1 = ''in_progress''"
    and "runs_get e 2 threadId (run_id r) = Inr r2" and "run_status r2 = ''completed''"
    and "date_now e 1 < date_now e 0 + timeoutMs"
    and "date_now e 2 < date_now e 0 + timeoutMs"
    and "2 \<le> fuel"
  shows "fst (appendAndRun e fuel agentId threadId message pollMs timeoutMs init_world) =
           Some (Inr \<lparr>runId = run_id r2, status = ''completed''\<rparr>)
       \<and> count_calls is_status_read
           (snd (appendAndRun e fuel agentId threadId message pollMs timeoutMs init_world)) = 3"
proof -
  obtain f where fuel: "fuel = Suc (Suc f)"
    using assms(12) by (metis Suc_le_D numeral_2_eq_2 Suc_le_mono)
  have p0: "pending r0" and p1: "pending r1" and p2: "\<not> pending r2"
    using assms(5,7,9) by (simp_all add: pending_def)
  let ?w = "polling_world agentId threadId message (run_id r)"
  let ?w' = "\<lparr>calls = calls ?w @ [SetTimeout pollMs, RunsGet threadId (run_id r),
                 SetTimeout pollMs, RunsGet threadId (run_id r)], reads = 3, ticks = 3\<rparr>"
  have "poll e fuel threadId (run_id r) pollMs (date_now e 0 + timeoutMs) r0 ?w =
          (Some (Inr r2), ?w')"
    using p0 p1 p2 assms(6,8,10,11)
    by (simp add: fuel while_cond_def do_date_now_def do_runs_get_def do_set_timeout_def
        polling_world_def poll_not_pending numeral_2_eq_2 numeral_3_eq_3)
  then show ?thesis
    using assms(9)
    by (simp add: appendAndRun_polling [OF assms(1,2,3,4)] polling_world_def count_calls_def)
qed

text \<open>
  The double that reports \<open>in_progress\<close> twice and then \<open>completed\<close>, under the
  default polling interval and timeout.
\<close>

theorem appendAndRun_three_reads_witness:
  "fst (appendAndRun (polling_double [''in_progress'', ''in_progress'', ''completed'']) 2
          ''agent'' ''thread'' (utf16 ''hello'') 1000 120000 init_world) =
     Some (Inr \<lparr>runId = ''run_1'', status = ''completed''\<rparr>)
   \<and> count_calls is_status_read
       (snd (appendAndRun (polling_double [''in_progress'', ''in_progress'', ''completed'']) 2
          ''agent'' ''thread'' (utf16 ''hello'') 1000 120000 init_world)) = 3"
  using appendAndRun_three_reads [where message = "utf16 ''hello''"
      and e = "polling_double [''in_progress'', ''in_progress'', ''completed'']"
      and threadId = "''thread''" and agentId = "''agent''" and r = "double_run ''queued''"
      and ?r0.0 = "double_run ''in_progress''" and ?r1.0 = "double_run ''in_progress''"
      and ?r2.0 = "double_run ''completed''" and timeoutMs = 120000 and fuel = 2
      and pollMs = 1000]
  by (simp add: trim_hello polling_double_def double_run_def)

text \<open>
  C1 as stated fails when the timeout has elapsed at the first evaluation of the loop
  condition. With \<open>timeoutMs = 0\<close> the same double is read once, and the invocation
  returns the status \<open>in_progress\<close> of that read.
\<close>

theorem appendAndRun_three_reads_counterexample:
  "trim (utf16 ''hello'') \<noteq> []
   \<and> messages_create (polling_double [''in_progress'', ''in_progress'', ''completed''])
        ''thread'' ''user'' (utf16 ''hello'') = None
   \<and> runs_create (polling_double [''in_progress'', ''in_progress'', ''completed''])
        ''thread'' ''agent'' = Inr (double_run ''queued'')
   \<and> map (\<lambda>k. runs_get (polling_double [''in_progress'', ''in_progress'', ''completed'']) k
        ''thread'' ''run_1'') [0, 1, 2] =
       [Inr (double_run ''in_progress''), Inr (double_run ''in_progress''),
        Inr (double_run ''completed'')]
   \<and> fst (appendAndRun (polling_double [''in_progress'', ''in_progress'', ''completed'']) 5
          ''agent'' ''thread'' (utf16 ''hello'') 1000 0 init_world) =
       Some (Inr \<lparr>runId = ''run_1'', status = ''in_progress''\<rparr>)
   \<and> count_calls is_status_read
       (snd (appendAndRun (polling_double [''in_progress'', ''in_progress'', ''completed'']) 5
          ''agent'' ''thread'' (utf16 ''hello'') 1000 0 init_world)) = 1"
  by (simp add: trim_hello polling_double_def double_run_def appendAndRun_def
      do_messages_create_def do_runs_create_def do_date_now_def do_runs_get_def
      do_set_timeout_def init_world_def while_cond_def pending_def count_calls_def
      eval_nat_numeral)

subsection \<open>Polling until the timeout\<close>

text \<open>
  C2. Let the append and the run creation resolve, let the status reads 0 to n all report
  \<open>queued\<close> or \<open>in_progress\<close>, and let the clock first reach
  \<open>end = Date.now() + timeoutMs\<close> at the evaluation of the loop condition that follows
  read n. Then, with fuel for n rounds, \<open>appendAndRun\<close> leaves the loop there and
  returns the id and the status of read n as they are. Nothing is thrown, and after the
  first read the invocation performs exactly n delays, each followed by a status read.
\<close>

theorem appendAndRun_timeout:
  assumes "trim message \<noteq> []"
    and "messages_create e threadId ''user'' message = None"
    and "runs_create e threadId agentId = Inr r"
    and "\<forall>k\<le>n. runs_get e k threadId (run_id r) = Inr (rs k) \<and> pending (rs k)"
    and "\<forall>k<n. date_now e (Suc k) < date_now e 0 + timeoutMs"
    and "date_now e 0 + timeoutMs \<le> date_now e (Suc n)"
    and "n \<le> fuel"
  shows "fst (appendAndRun e fuel agentId threadId message pollMs timeoutMs init_world) =
           Some (Inr \<lparr>runId = run_id (rs n), status = run_status (rs n)\<rparr>)
       \<and> calls (snd (appendAndRun e fuel agentId threadId message pollMs timeoutMs init_world)) =
           [MessagesCreate threadId ''user'' message, RunsCreate threadId agentId,
            RunsGet threadId (run_id r)]
           @ concat (replicate n [SetTimeout pollMs, RunsGet threadId (run_id r)])"
proof -
  let ?w = "polling_world agentId threadId message (run_id r)"
  have g0: "runs_get e 0 threadId (run_id r) = Inr (rs 0)" and p0: "pending (rs 0)"
    using assms(4) by auto
  have pn: "pending (rs n)"
    using assms(4) by auto
  have "poll e fuel threadId (run_id r) pollMs (date_now e 0 + timeoutMs) (rs 0) ?w =
          (Some (Inr (if n = 0 then rs 0 else (\<lambda>k. rs (Suc k)) (n - 1))),
            \<lparr>calls = calls ?w @ concat (replicate n [SetTimeout pollMs, RunsGet threadId (run_id r)]),
             reads = reads ?w + n, ticks = ticks ?w + Suc n\<rparr>)"
  proof (rule poll_timeout [OF p0 assms(7)])
    show "\<forall>k<n. runs_get e (reads ?w + k) threadId (run_id r) = Inr (rs (Suc k)) \<and>
            pending (rs (Suc k))"
      using assms(4) by (auto simp: polling_world_def)
    show "\<forall>k<n. date_now e (ticks ?w + k) < date_now e 0 + timeoutMs"
      using assms(5) by (auto simp: polling_world_def)
    show "\<not> date_now e (ticks ?w + n) < date_now e 0 + timeoutMs"
      using assms(6) by (simp add: polling_world_def)
  qed
  moreover have "(if n = 0 then rs 0 else (\<lambda>k. rs (Suc k)) (n - 1)) = rs n"
    by (cases n) simp_all
  moreover have "run_status (rs n) \<noteq> ''failed''"
    using pn by (auto simp: pending_def)
  ultimately show ?thesis
    by (simp add: appendAndRun_polling [OF assms(1,2,3) g0] polling_world_def)
qed

text \<open>
  The double that never leaves \<open>queued\<close>, with a timeout of 3000 and a polling interval
  of 1000 milliseconds: three delays, four status reads, status \<open>queued\<close>.
\<close>

theorem appendAndRun_timeout_witness:
  "fst (appendAndRun (polling_double [''queued'']) 10 ''agent'' ''thread'' (utf16 ''hello'') 1000 3000
          init_world) = Some (Inr \<lparr>runId = ''run_1'', status = ''queued''\<rparr>)
   \<and> calls (snd (appendAndRun (polling_double [''queued'']) 10 ''agent'' ''thread'' (utf16 ''hello'')
          1000 3000 init_world)) =
       [MessagesCreate ''thread'' ''user'' (utf16 ''hello''), RunsCreate ''thread'' ''agent'',
        RunsGet ''thread'' ''run_1'',
        SetTimeout 1000, RunsGet ''thread'' ''run_1'',
        SetTimeout 1000, RunsGet ''thread'' ''run_1'',
        SetTimeout 1000, RunsGet ''thread'' ''run_1'']"
  using appendAndRun_timeout [where message = "utf16 ''hello''" and e = "polling_double [''queued'']"
      and threadId = "''thread''" and agentId = "''agent''" and r = "double_run ''queued''"
      and n = 3 and rs = "\<lambda>k. double_run ''queued''" and timeoutMs = 3000 and fuel = 10
      and pollMs = 1000]
  by (simp add: trim_hello polling_double_def double_run_def pending_def
      numeral_3_eq_3)

subsection \<open>The remote calls of one invocation\<close>

text \<open>
  C9, as amended. For a message that is not blank and every \<open>timeoutMs\<close>, whatever the
  fuel, an invocation on a fresh double performs exactly one append; exactly one run
  creation when the append resolves; at least one status read when the run creation
  resolves as well; and when the first status read then reports a status other than
  \<open>queued\<close> and \<open>in_progress\<close>, the invocation ends after this one read, without a
  delay: it returns the id and the status of the read, or throws the run failure when the
  status is \<open>failed\<close>.
\<close>

theorem appendAndRun_call_counts:
  assumes "trim message \<noteq> []"
    and "appendAndRun e fuel agentId threadId message pollMs timeoutMs init_world = (res, W)"
  shows "count_calls is_append W = 1
     \<and> (messages_create e threadId ''user'' message = None \<longrightarrow>
          count_calls is_run_create W = 1)
     \<and> (messages_create e threadId ''user'' message = None
          \<and> runs_create e threadId agentId = Inr r \<longrightarrow>
          1 \<le> count_calls is_status_read W)
     \<and> (messages_create e threadId ''user'' message = None
          \<and> runs_create e threadId agentId = Inr r
          \<and> runs_get e 0 threadId (run_id r) = Inr cur \<and> \<not> pending cur \<longrightarrow>
          res = Some (if run_status cur = ''failed''
                      then Inl (Error (''run failed: '' @ lastError cur))
                      else Inr \<lparr>runId = run_id cur, status = run_status cur\<rparr>)
          \<and> count_calls is_status_read W = 1 \<and> count_calls is_delay W = 0)"
proof (cases "messages_create e threadId ''user'' message")
  case (Some err)
  then show ?thesis
    using assms
    by (auto simp: appendAndRun_def do_messages_create_def init_world_def count_calls_def)
next
  case None
  note app = None
  show ?thesis
  proof (cases "runs_create e threadId agentId")
    case (Inl err)
    then show ?thesis
      using assms app
      by (auto simp: appendAndRun_def do_messages_create_def do_runs_create_def init_world_def
          count_calls_def)
  next
    case (Inr r')
    note cre = Inr
    show ?thesis
    proof (cases "runs_get e 0 threadId (run_id r')")
      case (Inl err)
      then show ?thesis
        using assms app cre
        by (auto simp: appendAndRun_def do_messages_create_def do_runs_create_def
            do_date_now_def do_runs_get_def init_world_def count_calls_def)
    next
      case (Inr cur')
      let ?w = "polling_world agentId threadId message (run_id r')"
      let ?p = "poll e fuel threadId (run_id r') pollMs (date_now e 0 + timeoutMs) cur' ?w"
      have W: "W = snd ?p"
        using appendAndRun_polling_world [OF assms(1) app cre Inr, of fuel pollMs timeoutMs]
          assms(2) by simp
      have a: "count_calls is_append W = 1"
        unfolding W count_calls_def
        by (subst poll_filter) (simp_all add: polled_call polling_world_def)
      have b: "count_calls is_run_create W = 1"
        unfolding W count_calls_def
        by (subst poll_filter) (simp_all add: polled_call polling_world_def)
      have c: "1 \<le> count_calls is_status_read W"
        unfolding W count_calls_def
        using poll_reads [of ?w e fuel threadId "run_id r'" pollMs "date_now e 0 + timeoutMs" cur']
        by (simp add: polling_world_def)
      have d: "res = Some (if run_status cur' = ''failed''
                      then Inl (Error (''run failed: '' @ lastError cur'))
                      else Inr \<lparr>runId = run_id cur', status = run_status cur'\<rparr>)
          \<and> count_calls is_status_read W = 1 \<and> count_calls is_delay W = 0"
        if "\<not> pending cur'"
      proof -
        have "?p = (Some (Inr cur'), ?w)"
          using that by (rule poll_not_pending)
        then show ?thesis
          using assms(2)
          by (auto simp: appendAndRun_polling [OF assms(1) app cre Inr] polling_world_def
              count_calls_def split: if_splits)
      qed
      show ?thesis
        using a b c d cre Inr by auto
    qed
  qed
qed

text \<open>
  A negative timeout and no fuel: one append, one run creation, one status read, no delay.
\<close>

theorem appendAndRun_call_counts_witness:
  "count_calls is_append
     (snd (appendAndRun (polling_double [''completed'']) 0 ''agent'' ''thread'' (utf16 ''hello'') 1000 (- 5)
        init_world)) = 1
   \<and> count_calls is_run_create
     (snd (appendAndRun (polling_double [''completed'']) 0 ''agent'' ''thread'' (utf16 ''hello'') 1000 (- 5)
        init_world)) = 1
   \<and> count_calls is_status_read
     (snd (appendAndRun (polling_double [''completed'']) 0 ''agent'' ''thread'' (utf16 ''hello'') 1000 (- 5)
        init_world)) = 1
   \<and> count_calls is_delay
     (snd (appendAndRun (polling_double [''completed'']) 0 ''agent'' ''thread'' (utf16 ''hello'') 1000 (- 5)
        init_world)) = 0
   \<and> fst (appendAndRun (polling_double [''completed'']) 0 ''agent'' ''thread'' (utf16 ''hello'') 1000 (- 5)
        init_world) = Some (Inr \<lparr>runId = ''run_1'', status = ''completed''\<rparr>)"
  using appendAndRun_call_counts [where message = "utf16 ''hello''"
      and e = "polling_double [''completed'']" and fuel = 0
      and threadId = "''thread''" and agentId = "''agent''" and pollMs = 1000
      and timeoutMs = "- 5" and r = "double_run ''queued''" and cur = "double_run ''completed''"
      and res = "fst (appendAndRun (polling_double [''completed'']) 0 ''agent'' ''thread''
         (utf16 ''hello'') 1000 (- 5) init_world)"
      and W = "snd (appendAndRun (polling_double [''completed'']) 0 ''agent'' ''thread''
         (utf16 ''hello'') 1000 (- 5) init_world)"]
  by (simp add: trim_hello polling_double_def double_run_def pending_def)

text \<open>
  C9 as stated fails when the remote service rejects the append: the rejection is
  propagated, and neither a run creation nor a status read follows.
\<close>

theorem appendAndRun_call_counts_counterexample:
  "trim (utf16 ''hello'') \<noteq> []
   \<and> count_calls is_append
       (snd (appendAndRun rejecting_double 5 ''agent'' ''thread'' (utf16 ''hello'') 1000 120000
          init_world)) = 1
   \<and> count_calls is_run_create
       (snd (appendAndRun rejecting_double 5 ''agent'' ''thread'' (utf16 ''hello'') 1000 120000
          init_world)) = 0
   \<and> count_calls is_status_read
       (snd (appendAndRun rejecting_double 5 ''agent'' ''thread'' (utf16 ''hello'') 1000 120000
          init_world)) = 0"
  by (simp add: trim_hello rejecting_double_def polling_double_def
      appendAndRun_def do_messages_create_def init_world_def count_calls_def)

section \<open>Properties of the credential provider\<close>

lemma getToken_hit:
  "cache_fresh s (now_ms div 1000) \<Longrightarrow>
   getToken post now_ms config s =
     (Some \<lparr>accessToken = cachedToken s, expireAt = tokenExpireAt s\<rparr>, s)"
  by (simp add: getToken_def)

lemma getToken_miss:
  "\<not> cache_fresh s (now_ms div 1000) \<Longrightarrow>
   posts (snd (getToken post now_ms config s)) =
     posts s @ [(tokenEndpoint config, token_params config)]"
  by (simp add: getToken_def Let_def split: post_result.splits option.splits)

lemma getToken_margin:
  assumes "getToken post now_ms config s = (res, s')"
  shows "(posts s' = posts s \<longrightarrow>
            60 < tokenExpireAt s - now_ms div 1000
            \<and> res = Some \<lparr>accessToken = cachedToken s, expireAt = tokenExpireAt s\<rparr>)
       \<and> (tokenExpireAt s - now_ms div 1000 < 60 \<longrightarrow>
            posts s' = posts s @ [(tokenEndpoint config, token_params config)])"
proof (cases "cache_fresh s (now_ms div 1000)")
  case True
  then have "60 < tokenExpireAt s - now_ms div 1000"
    by (simp add: cache_fresh_def)
  then show ?thesis
    using assms getToken_hit [OF True, of post config] by auto
next
  case False
  have "posts s' = posts s @ [(tokenEndpoint config, token_params config)]"
    using getToken_miss [OF False, of post config] assms by simp
  then show ?thesis by simp
qed

text \<open>
  C5. In every sequence of \<open>getToken\<close> calls, from any state of the cache, a call
  that answers without posting a request returns the cached token, and the token then has
  more than 60 seconds, and so at least 60 seconds, of validity left at the time of the
  call. A call made when fewer than 60 seconds are left posts the refresh request, so the
  cached token is not returned from the cache.
\<close>

theorem cached_token_margin:
  assumes "(s, (now_ms, post, config), res, s') \<in> set (getTokens s0 cs)"
  shows "(posts s' = posts s \<longrightarrow>
            60 < tokenExpireAt s - now_ms div 1000
            \<and> res = Some \<lparr>accessToken = cachedToken s, expireAt = tokenExpireAt s\<rparr>)
       \<and> (tokenExpireAt s - now_ms div 1000 < 60 \<longrightarrow>
            posts s' = posts s @ [(tokenEndpoint config, token_params config)])"
  using assms
proof (induction cs arbitrary: s0)
  case Nil
  then show ?case by simp
next
  case (Cons c cs)
  obtain t p cf where c: "c = (t, p, cf)"
    by (cases c) auto
  obtain r1 s1 where g: "getToken p t cf s0 = (r1, s1)"
    by (cases "getToken p t cf s0") auto
  from Cons.prems consider
      (here) "s = s0" "now_ms = t" "post = p" "config = cf" "res = r1" "s' = s1"
    | (later) "(s, (now_ms, post, config), res, s') \<in> set (getTokens s1 cs)"
    by (auto simp: c g)
  then show ?case
  proof cases
    case here
    then show ?thesis
      using getToken_margin [OF g] by simp
  next
    case later
    then show ?thesis by (rule Cons.IH)
  qed
qed

text \<open>
  Three calls on the initial state: at second 1000 a token valid until second 4600 is
  fetched; at second 4000, with 600 seconds left, it is returned from the cache; at second
  4541, with 59 seconds left, a new token is fetched.
\<close>

theorem cached_token_margin_witness:
  "getTokens init_auth
     [(1000000, granting ''t1'', test_config), (4000000, unreachable, test_config),
      (4541000, granting ''t2'', test_config)] =
   [(init_auth, (1000000, granting ''t1'', test_config),
       Some \<lparr>accessToken = Some ''t1'', expireAt = 4600\<rparr>,
       \<lparr>cachedToken = Some ''t1'', tokenExpireAt = 4600,
        posts = [(tokenEndpoint test_config, token_params test_config)]\<rparr>),
    (\<lparr>cachedToken = Some ''t1'', tokenExpireAt = 4600,
        posts = [(tokenEndpoint test_config, token_params test_config)]\<rparr>,
       (4000000, unreachable, test_config),
       Some \<lparr>accessToken = Some ''t1'', expireAt = 4600\<rparr>,
       \<lparr>cachedToken = Some ''t1'', tokenExpireAt = 4600,
        posts = [(tokenEndpoint test_config, token_params test_config)]\<rparr>),
    (\<lparr>cachedToken = Some ''t1'', tokenExpireAt = 4600,
        posts = [(tokenEndpoint test_config, token_params test_config)]\<rparr>,
       (4541000, granting ''t2'', test_config),
       Some \<lparr>accessToken = Some ''t2'', expireAt = 8141\<rparr>,
       \<lparr>cachedToken = Some ''t2'', tokenExpireAt = 8141,
        posts = [(tokenEndpoint test_config, token_params test_config),
                 (tokenEndpoint test_config, token_params test_config)]\<rparr>)]
   \<and> (60::int) < 4600 - 4000000 div 1000
   \<and> (4600::int) - 4541000 div 1000 < 60"
  using cached_token_margin [where ?s0.0 = init_auth
      and cs = "[(1000000, granting ''t1'', test_config), (4000000, unreachable, test_config),
        (4541000, granting ''t2'', test_config)]"
      and s = "\<lparr>cachedToken = Some ''t1'', tokenExpireAt = 4600,
        posts = [(tokenEndpoint test_config, token_params test_config)]\<rparr>"
      and now_ms = 4000000 and post = unreachable and config = test_config
      and res = "Some \<lparr>accessToken = Some ''t1'', expireAt = 4600\<rparr>"
      and s' = "\<lparr>cachedToken = Some ''t1'', tokenExpireAt = 4600,
        posts = [(tokenEndpoint test_config, token_params test_config)]\<rparr>"]
  by (simp add: getToken_def init_auth_def cache_fresh_def granting_def unreachable_def)




section \<open>Properties of the message routes\<close>

subsection \<open>Auxiliary facts about rounding to doubles\<close>

lemma bit_length_le: "n \<noteq> 0 \<Longrightarrow> 2 ^ (bit_length n - 1) \<le> n"
proof (induction n rule: bit_length.induct)
  case (1 n)
  show ?case
  proof (cases "n div 2 = 0")
    case True
    then show ?thesis
      using "1.prems" by (simp add: bit_length.simps [of n] bit_length.simps [of 0])
  next
    case False
    then have "2 ^ (bit_length (n div 2) - 1) \<le> n div 2"
      using "1.IH" "1.prems" by simp
    moreover have "bit_length (n div 2) \<noteq> 0"
      using False by (simp add: bit_length.simps [of "n div 2"])
    ultimately show ?thesis
      using "1.prems"
      by (cases "bit_length (n div 2)") (auto simp: bit_length.simps [of n])
  qed
qed

lemma bit_length_less: "n < 2 ^ bit_length n"
proof (induction n rule: bit_length.induct)
  case (1 n)
  show ?case
  proof (cases "n = 0")
    case True
    then show ?thesis by (simp add: bit_length.simps [of n])
  next
    case False
    then have "n div 2 < 2 ^ bit_length (n div 2)"
      using "1.IH" by simp
    then show ?thesis
      using False by (simp add: bit_length.simps [of n])
  qed
qed


lemma round_double_exact: "\<bar>x\<bar> \<le> 9007199254740992 \<Longrightarrow> round_double x = x"
  by (simp add: round_double_def)

text \<open>The quantum of a large integer, and what rounding does with it.\<close>

lemma quantum_le:
  assumes "9007199254740992 < a"
  shows "(2::nat) ^ (bit_length a - 53) \<le> a"
proof -
  have "a \<noteq> 0" using assms by simp
  then have "(2::nat) ^ (bit_length a - 1) \<le> a"
    by (rule bit_length_le)
  moreover have "(2::nat) ^ (bit_length a - 53) \<le> 2 ^ (bit_length a - 1)"
    by (rule power_increasing) simp_all
  ultimately show ?thesis by linarith
qed

lemma bit_length_large:
  assumes "9007199254740992 < a"
  shows "53 \<le> bit_length a"
proof (rule ccontr)
  assume "\<not> 53 \<le> bit_length a"
  then have "bit_length a \<le> 53" by simp
  then have "(2::nat) ^ bit_length a \<le> 2 ^ 53"
    by (rule power_increasing) simp
  moreover have "(2::nat) ^ 53 = 9007199254740992" by simp
  ultimately show False
    using bit_length_less [of a] assms by linarith
qed

lemma round_double_large:
  assumes "9007199254740992 < \<bar>x\<bar>"
  obtains s e where "round_double x = sgn x * (int s * 2 ^ e)"
    and "0 < s" and "s \<le> 9007199254740992"
    and "e = bit_length (nat \<bar>x\<bar>) - 53"
    and "2 * \<bar>int s * 2 ^ e - \<bar>x\<bar>\<bar> \<le> 2 ^ e"
proof -
  define a where "a = nat \<bar>x\<bar>"
  define e where "e = bit_length a - 53"
  define q where "q = (2::nat) ^ e"
  define r where "r = a div q"
  define m where "m = a mod q"
  define up where "up \<longleftrightarrow> q < 2 * m \<or> (2 * m = q \<and> odd r)"
  define s where "s = (if up then r + 1 else r)"
  define K where "K = (2::nat) ^ 53"
  have K: "K = 9007199254740992"
    by (simp add: K_def)
  have a: "9007199254740992 < a" and ax: "int a = \<bar>x\<bar>"
    using assms by (simp_all add: a_def)
  have q: "0 < q"
    by (simp add: q_def)
  have "q \<le> a"
    unfolding q_def e_def using a by (rule quantum_le)
  then have r: "0 < r"
    using q by (simp add: r_def div_greater_zero_iff)
  have split: "a = r * q + m"
    unfolding r_def m_def by (rule div_mult_mod_eq [symmetric])
  have m: "m < q"
    using q by (simp add: m_def)
  have "53 \<le> bit_length a"
    using a by (rule bit_length_large)
  then have "bit_length a = 53 + e"
    by (simp add: e_def)
  then have "(2::nat) ^ bit_length a = K * q"
    by (simp only: K_def q_def power_add)
  then have "a < K * q"
    using bit_length_less [of a] by simp
  then have "r < K"
    unfolding r_def by (rule less_mult_imp_div_less)
  then have sK: "s \<le> 9007199254740992"
    by (simp add: s_def K [symmetric])
  have s: "0 < s"
    using r by (simp add: s_def)
  have near: "2 * \<bar>int (s * q) - \<bar>x\<bar>\<bar> \<le> int q"
  proof (cases up)
    case True
    then have "s * q = a + (q - m)"
      using m split by (simp add: s_def)
    then have "int (s * q) - \<bar>x\<bar> = int (q - m)"
      using ax by simp
    moreover have "2 * (q - m) \<le> q"
      using True m by (auto simp: up_def)
    ultimately show ?thesis
      by simp
  next
    case False
    then have "a = s * q + m"
      using split by (simp add: s_def)
    then have "int (s * q) - \<bar>x\<bar> = - int m"
      using ax by simp
    moreover have "2 * m \<le> q"
      using False by (auto simp: up_def)
    ultimately show ?thesis
      by simp
  qed
  have iq: "int q = 2 ^ e"
    by (simp add: q_def)
  have "round_double x = sgn x * int (s * q)"
    using assms
    by (simp add: round_double_def Let_def s_def up_def r_def m_def q_def e_def a_def)
  then have "round_double x = sgn x * (int s * 2 ^ e)"
    by (simp add: iq)
  moreover have "2 * \<bar>int s * 2 ^ e - \<bar>x\<bar>\<bar> \<le> 2 ^ e"
    using near by (simp add: iq)
  ultimately show ?thesis
    using that [of s e] s sK by (simp add: e_def a_def)
qed

lemma round_double_sgn: "sgn (round_double x) = sgn x"
proof (cases "\<bar>x\<bar> \<le> 9007199254740992")
  case True
  then show ?thesis by (simp add: round_double_exact)
next
  case False
  then obtain s e where rd: "round_double x = sgn x * (int s * 2 ^ e)" and "0 < s"
    using round_double_large [of x] by (metis not_le)
  define p where "p = int s * 2 ^ e"
  have "0 < p"
    using \<open>0 < s\<close> by (simp add: p_def)
  then show ?thesis
    unfolding rd p_def [symmetric] by (simp add: sgn_if)
qed

lemma round_double_neg [simp]: "(round_double x < 0) = (x < 0)"
  using round_double_sgn [of x] by (metis sgn_less)

lemma round_double_pos [simp]: "(0 < round_double x) = (0 < x)"
  using round_double_sgn [of x] by (metis sgn_greater)

lemma round_double_nonpos [simp]: "(round_double x \<le> 0) = (x \<le> 0)"
  using round_double_pos [of x] by linarith




subsection \<open>Auxiliary facts about comparison functions and sorting\<close>

lemma compare_code_units_swap: "(compare_code_units a b < 0) = (0 < compare_code_units b a)"
  by (induction a b rule: compare_code_units.induct) auto

lemma compare_code_units_trans:
  "compare_code_units a b \<le> 0 \<Longrightarrow> compare_code_units b c \<le> 0 \<Longrightarrow> compare_code_units a c \<le> 0"
proof (induction a b arbitrary: c rule: compare_code_units.induct)
  case 1
  then show ?case by simp
next
  case (2 y ys)
  then show ?case by (cases c) auto
next
  case (3 x xs)
  then show ?case by simp
next
  case (4 x xs y ys)
  then show ?case
    by (cases c) (auto split: if_splits)
qed

lemma consistent_compare_code_units: "consistent compare_code_units"
  unfolding consistent_def
  using compare_code_units_swap compare_code_units_trans by blast

lemma compare_code_units_lexord:
  "compare_code_units a b < 0 \<longleftrightarrow> (a, b) \<in> lexord {(x, y). (of_char x :: nat) < of_char y}"
  by (induction a b rule: compare_code_units.induct) auto

lemma compare_code_units_equal: "compare_code_units a b = 0 \<longleftrightarrow> a = b"
  by (induction a b rule: compare_code_units.induct) auto

lemma consistent_test_host: "consistent (localeCompare test_host)"
  by (simp add: test_host_def consistent_compare_code_units)

lemma consistent_total: "consistent cmp \<Longrightarrow> cmp a b \<le> 0 \<or> cmp b a \<le> 0"
  unfolding consistent_def by (metis less_le_not_le linorder_le_cases)

lemma consistent_trans:
  "consistent cmp \<Longrightarrow> cmp a b \<le> 0 \<Longrightarrow> cmp b c \<le> 0 \<Longrightarrow> cmp a c \<le> 0"
  unfolding consistent_def by blast

lemma consistent_byCreatedAsc:
  assumes "consistent (localeCompare h)"
  shows "consistent (byCreatedAsc h now now)"
  unfolding consistent_def
proof (intro conjI allI impI)
  fix a b
  show "(byCreatedAsc h now now a b < 0) = (0 < byCreatedAsc h now now b a)"
    using assms by (auto simp: byCreatedAsc_def Let_def consistent_def)
next
  fix a b c
  assume "byCreatedAsc h now now a b \<le> 0 \<and> byCreatedAsc h now now b c \<le> 0"
  then show "byCreatedAsc h now now a c \<le> 0"
    using consistent_trans [OF assms, of "id_of h a" "id_of h b" "id_of h c"]
    by (auto simp: byCreatedAsc_def Let_def split: if_splits)
qed

lemma set_insert_by: "set (insert_by cmp x ys) = insert x (set ys)"
  by (induction ys) auto

lemma set_js_sort: "set (js_sort cmp xs) = set xs"
  by (induction xs) (simp_all add: js_sort_def set_insert_by)

lemma length_insert_by: "length (insert_by cmp x ys) = Suc (length ys)"
  by (induction ys) auto

lemma length_js_sort: "length (js_sort cmp xs) = length xs"
  by (induction xs) (simp_all add: js_sort_def length_insert_by)

lemma sorted_insert_by:
  assumes "consistent cmp" and "sorted_wrt (\<lambda>a b. cmp a b \<le> 0) ys"
  shows "sorted_wrt (\<lambda>a b. cmp a b \<le> 0) (insert_by cmp x ys)"
  using assms(2)
proof (induction ys)
  case Nil
  then show ?case by simp
next
  case (Cons y ys)
  show ?case
  proof (cases "cmp x y \<le> 0")
    case True
    then have "\<forall>z \<in> set ys. cmp x z \<le> 0"
      using Cons.prems consistent_trans [OF assms(1)] by auto
    with True Cons.prems show ?thesis by simp
  next
    case False
    then have "cmp y x \<le> 0"
      using consistent_total [OF assms(1), of x y] by simp
    with False Cons show ?thesis
      by (auto simp: set_insert_by)
  qed
qed

lemma sorted_js_sort:
  "consistent cmp \<Longrightarrow> sorted_wrt (\<lambda>a b. cmp a b \<le> 0) (js_sort cmp xs)"
  by (induction xs) (simp_all add: js_sort_def sorted_insert_by)

lemma js_sort_Cons: "js_sort cmp (x # xs) = insert_by cmp x (js_sort cmp xs)"
  by (simp add: js_sort_def)

lemma js_sort_sorted:
  "sorted_wrt (\<lambda>a b. cmp a b \<le> 0) xs \<Longrightarrow> js_sort cmp xs = xs"
proof (induction xs)
  case Nil
  then show ?case by (simp add: js_sort_def)
next
  case (Cons x xs)
  then have "js_sort cmp xs = xs" by simp
  then show ?case
    using Cons.prems by (cases xs) (simp_all add: js_sort_Cons)
qed

lemma sorted_wrt_cong_set:
  "(\<And>a b. a \<in> set xs \<Longrightarrow> b \<in> set xs \<Longrightarrow> P a b = Q a b) \<Longrightarrow>
   sorted_wrt P xs = sorted_wrt Q xs"
  by (induction xs) auto

text \<open>
  With \<open>sorted_js_sort\<close>, the next facts say that \<open>js_sort\<close> is a stable sort: its
  result is a permutation of the array, and the elements that compare equal to a given
  one keep their order.
\<close>

lemma mset_insert_by: "mset (insert_by cmp x ys) = add_mset x (mset ys)"
  by (induction ys) auto

lemma mset_js_sort: "mset (js_sort cmp xs) = mset xs"
  by (induction xs) (simp_all add: js_sort_def mset_insert_by)

lemma consistent_equal_swap: "consistent cmp \<Longrightarrow> cmp a b = 0 \<Longrightarrow> cmp b a = 0"
  unfolding consistent_def by (metis less_irrefl linorder_neqE_linordered_idom)

lemma filter_insert_by_other: "\<not> P x \<Longrightarrow> filter P (insert_by cmp x ys) = filter P ys"
  by (induction ys) auto

lemma filter_insert_by_equal:
  assumes "consistent cmp" and "cmp z x = 0"
  shows "filter (\<lambda>y. cmp z y = 0) (insert_by cmp x ys) = x # filter (\<lambda>y. cmp z y = 0) ys"
proof (induction ys)
  case Nil
  then show ?case using assms(2) by simp
next
  case (Cons y ys)
  show ?case
  proof (cases "cmp x y \<le> 0")
    case True
    then show ?thesis using assms(2) by simp
  next
    case False
    have "cmp z y \<noteq> 0"
    proof
      assume "cmp z y = 0"
      moreover have "cmp x z = 0"
        using consistent_equal_swap [OF assms] .
      ultimately have "cmp x y \<le> 0"
        using consistent_trans [OF assms(1), of x z y] by simp
      with False show False by simp
    qed
    with False Cons show ?thesis by simp
  qed
qed

lemma js_sort_stable:
  assumes "consistent cmp"
  shows "filter (\<lambda>y. cmp z y = 0) (js_sort cmp xs) = filter (\<lambda>y. cmp z y = 0) xs"
proof (induction xs)
  case Nil
  then show ?case by (simp add: js_sort_def)
next
  case (Cons x xs)
  then show ?case
    by (cases "cmp z x = 0")
      (simp_all add: js_sort_Cons filter_insert_by_equal [OF assms] filter_insert_by_other)
qed


text \<open>The host that collates letters is consistent as well.\<close>

lemma compare_keys_swap: "(compare_keys a b < 0) = (0 < compare_keys b a)"
  by (induction a b rule: compare_keys.induct) auto

lemma compare_keys_trans:
  "compare_keys a b \<le> 0 \<Longrightarrow> compare_keys b c \<le> 0 \<Longrightarrow> compare_keys a c \<le> 0"
proof (induction a b arbitrary: c rule: compare_keys.induct)
  case 1
  then show ?case by simp
next
  case (2 y ys)
  then show ?case by (cases c) auto
next
  case (3 x xs)
  then show ?case by simp
next
  case (4 x xs y ys)
  then show ?case
    by (cases c) (auto split: if_splits)
qed

lemma consistent_compare_keys: "consistent compare_keys"
  unfolding consistent_def
  using compare_keys_swap compare_keys_trans by blast

lemma consistent_reverse: "consistent cmp \<Longrightarrow> consistent (\<lambda>a b. cmp b a)"
  unfolding consistent_def by blast

lemma consistent_then:
  assumes f: "consistent f" and g: "consistent g"
  shows "consistent (\<lambda>a b. if f a b \<noteq> 0 then f a b else g a b)"
proof -
  have swap: "(f a b < 0) = (0 < f b a)" for a b
    using f unfolding consistent_def by blast
  have zero: "(f a b = 0) = (f b a = 0)" for a b
    using swap [of a b] swap [of b a] by linarith
  have trans: "f a b \<le> 0 \<Longrightarrow> f b c \<le> 0 \<Longrightarrow> f a c \<le> 0" for a b c
    using f unfolding consistent_def by blast
  have gswap: "(g a b < 0) = (0 < g b a)" for a b
    using g unfolding consistent_def by blast
  have gtrans: "g a b \<le> 0 \<Longrightarrow> g b c \<le> 0 \<Longrightarrow> g a c \<le> 0" for a b c
    using g unfolding consistent_def by blast
  show ?thesis
    unfolding consistent_def
  proof (intro conjI allI impI)
    fix a b
    show "((if f a b \<noteq> 0 then f a b else g a b) < 0) =
          (0 < (if f b a \<noteq> 0 then f b a else g b a))"
      using swap [of a b] zero [of a b] gswap [of a b] by auto
  next
    fix a b c
    assume h: "(if f a b \<noteq> 0 then f a b else g a b) \<le> 0 \<and>
               (if f b c \<noteq> 0 then f b c else g b c) \<le> 0"
    then have ab: "f a b \<le> 0" and bc: "f b c \<le> 0"
      by (auto split: if_splits)
    then have ac: "f a c \<le> 0"
      by (rule trans)
    show "(if f a c \<noteq> 0 then f a c else g a c) \<le> 0"
    proof (cases "f a c = 0")
      case False
      then show ?thesis using ac by simp
    next
      case True
      then have ca: "f c a \<le> 0"
        using zero [of a c] by simp
      have "f b a \<le> 0"
        using bc ca by (rule trans)
      then have ab0: "f a b = 0"
        using ab swap [of a b] by linarith
      have "f c b \<le> 0"
        using ca ab by (rule trans)
      then have bc0: "f b c = 0"
        using bc swap [of b c] by linarith
      from h ab0 bc0 have "g a b \<le> 0" and "g b c \<le> 0"
        by simp_all
      then have "g a c \<le> 0"
        by (rule gtrans)
      with True show ?thesis by simp
    qed
  qed
qed

lemma consistent_compare_letters: "consistent compare_letters"
proof -
  have "consistent (\<lambda>a b. if compare_keys a b \<noteq> 0 then compare_keys a b
                           else compare_code_units b a)"
    using consistent_compare_keys consistent_reverse [OF consistent_compare_code_units]
    by (rule consistent_then)
  moreover have "compare_letters = (\<lambda>a b. if compare_keys a b \<noteq> 0 then compare_keys a b
                           else compare_code_units b a)"
    by (intro ext) (simp add: compare_letters_def)
  ultimately show ?thesis by simp
qed

lemma consistent_letters_host: "consistent (localeCompare letters_host)"
  by (simp add: letters_host_def consistent_compare_letters)

lemma has_id_id_of: "has_id m s \<Longrightarrow> id_of h m = s"
  by (auto simp: has_id_def absent_def id_of_def js_get_def coalesce_def nullish_def String_def)

text \<open>
  When the clock advances between the two readings of one comparison, two messages
  without a creation field are ordered by the readings, whatever their ids.
\<close>

lemma byCreatedAsc_tick: "byCreatedAsc test_host 1 2 (untimed ''b'') (untimed ''a'') < 0"
  by (simp add: byCreatedAsc_def pickCreatedMs_def CREATED_KEYS_def js_get_def nullish_def
      untimed_def)

text \<open>Unfolding the definitions on concrete messages.\<close>

lemmas eval_messages =
  orderMessages_def js_sort_def byCreatedAsc_def pickCreatedMs_def CREATED_KEYS_def
  js_get_def nullish_def id_of_def String_def coalesce_def test_host_def timed_def untimed_def
  round_double_exact

subsection \<open>The creation time of a message\<close>




subsection \<open>The order of messages\<close>

text \<open>
  C4, as amended. Let \<open>localeCompare\<close> be consistent, and let every message of the
  array take its creation time from a creation field, so that no comparison reads the
  clock. In the array that \<open>sort(byCreatedAsc)\<close> yields, whenever two messages have
  the same creation time, the one that comes first has the id that \<open>localeCompare\<close>
  puts first (or an equal one), where the id is \<open>id\<close>, else \<open>_id\<close>, else the empty
  string, converted to a string. The ids ascend in the order of the engine's
  \<open>localeCompare\<close>, not in a fixed lexicographic order: for an engine that compares
  code unit by code unit the two agree (\<open>compare_code_units_lexord\<close>), for an engine
  that collates they do not.
\<close>

theorem equal_times_ordered_by_id:
  assumes "consistent (localeCompare h)"
    and "\<forall>m \<in> set xs. \<forall>t. pickCreatedMs h t m = pickCreatedMs h now m"
    and "i < j" and "j < length (orderMessages h now xs)"
    and "pickCreatedMs h now (orderMessages h now xs ! i) =
         pickCreatedMs h now (orderMessages h now xs ! j)"
  shows "localeCompare h (id_of h (orderMessages h now xs ! i))
           (id_of h (orderMessages h now xs ! j)) \<le> 0
       \<and> (\<forall>s t. has_id (orderMessages h now xs ! i) s \<and> has_id (orderMessages h now xs ! j) t
             \<longrightarrow> localeCompare h s t \<le> 0)"
proof -
  have "sorted_wrt (\<lambda>a b. byCreatedAsc h now now a b \<le> 0) (orderMessages h now xs)"
    unfolding orderMessages_def
    by (rule sorted_js_sort) (rule consistent_byCreatedAsc [OF assms(1)])
  then have "byCreatedAsc h now now (orderMessages h now xs ! i) (orderMessages h now xs ! j) \<le> 0"
    using assms(3,4) by (simp add: sorted_wrt_iff_nth_less)
  then have "localeCompare h (id_of h (orderMessages h now xs ! i))
           (id_of h (orderMessages h now xs ! j)) \<le> 0"
    using assms(5) by (simp add: byCreatedAsc_def)
  then show ?thesis
    by (auto dest: has_id_id_of [where h = h])
qed

text \<open>
  Three messages under the collating host, two of them created at the same second: the
  earliest comes first, and the two that tie come in the order of their ids.
\<close>

theorem equal_times_ordered_by_id_witness:
  "orderMessages letters_host 0 [timed ''b'' 5, timed ''A'' 5, timed ''c'' 3] =
     [timed ''c'' 3, timed ''A'' 5, timed ''b'' 5]
   \<and> localeCompare letters_host ''A'' ''b'' \<le> 0"
  using equal_times_ordered_by_id [OF consistent_letters_host, where i = 1 and j = 2 and now = 0
      and xs = "[timed ''b'' 5, timed ''A'' 5, timed ''c'' 3]"]
  by (simp add: eval_messages letters_host_def compare_letters_def letter_key_def)

text \<open>
  C4 as stated fails for an engine whose \<open>localeCompare\<close> collates: two messages of
  the same second with the ids \<open>B\<close> and \<open>a\<close> come out as \<open>a\<close>, \<open>B\<close>, while
  \<open>B\<close> precedes \<open>a\<close> in the lexicographic order of code units.
\<close>

theorem equal_times_ordered_by_id_counterexample:
  "orderMessages letters_host 0 [timed ''B'' 5, timed ''a'' 5] = [timed ''a'' 5, timed ''B'' 5]
   \<and> pickCreatedMs letters_host 0 (timed ''a'' 5) = pickCreatedMs letters_host 0 (timed ''B'' 5)
   \<and> has_id (timed ''a'' 5) ''a'' \<and> has_id (timed ''B'' 5) ''B''
   \<and> (''B'', ''a'') \<in> lexord {(x, y). (of_char x :: nat) < of_char y}
   \<and> (''a'', ''B'') \<notin> lexord {(x, y). (of_char x :: nat) < of_char y}"
  by (simp add: eval_messages letters_host_def compare_letters_def letter_key_def has_id_def
      absent_def)

text \<open>
  C8, as amended. Let \<open>localeCompare\<close> be consistent. Ordering the output of
  \<open>orderMessages\<close> again gives the same sequence whenever every message has the same
  inferred creation time in both applications; this is so when every message has a
  creation field that yields a time, and when both applications read the same clock value.
\<close>

theorem orderMessages_idempotent:
  assumes "consistent (localeCompare h)"
    and "\<forall>m \<in> set xs. pickCreatedMs h now' m = pickCreatedMs h now m"
  shows "orderMessages h now' (orderMessages h now xs) = orderMessages h now xs"
proof -
  let ?ys = "orderMessages h now xs"
  have set: "set ?ys = set xs"
    by (simp add: orderMessages_def set_js_sort)
  have "sorted_wrt (\<lambda>a b. byCreatedAsc h now now a b \<le> 0) ?ys"
    unfolding orderMessages_def
    by (rule sorted_js_sort) (rule consistent_byCreatedAsc [OF assms(1)])
  moreover have "sorted_wrt (\<lambda>a b. byCreatedAsc h now now a b \<le> 0) ?ys =
      sorted_wrt (\<lambda>a b. byCreatedAsc h now' now' a b \<le> 0) ?ys"
    by (rule sorted_wrt_cong_set) (use assms(2) set in \<open>simp add: byCreatedAsc_def\<close>)
  ultimately have "sorted_wrt (\<lambda>a b. byCreatedAsc h now' now' a b \<le> 0) ?ys"
    by simp
  then show ?thesis
    unfolding orderMessages_def [of h now'] by (rule js_sort_sorted)
qed

text \<open>Two messages that carry their creation time, ordered at two different moments.\<close>

theorem orderMessages_idempotent_witness:
  "orderMessages test_host 1700000010000
     (orderMessages test_host 1700000000000 [timed ''b'' 1700000005, timed ''a'' 1700000001]) =
   [timed ''a'' 1700000001, timed ''b'' 1700000005]"
  using orderMessages_idempotent [OF consistent_test_host, where now = 1700000000000
      and now' = 1700000010000
      and xs = "[timed ''b'' 1700000005, timed ''a'' 1700000001]"]
  by (simp add: eval_messages)

text \<open>
  C8 as stated fails when a message has no creation field, so that its time is the clock
  reading of each application. Message \<open>a\<close> is dated 1700000005 seconds and message
  \<open>b\<close> is not dated. Ordered when the clock reads 1700000000000 milliseconds,
  \<open>b\<close> comes first; ordering this output again when the clock reads 1700000010000
  puts \<open>a\<close> first.
\<close>

theorem orderMessages_idempotent_counterexample:
  "orderMessages test_host 1700000000000 [timed ''a'' 1700000005, untimed ''b''] =
     [untimed ''b'', timed ''a'' 1700000005]
   \<and> orderMessages test_host 1700000010000
       (orderMessages test_host 1700000000000 [timed ''a'' 1700000005, untimed ''b'']) =
     [timed ''a'' 1700000005, untimed ''b'']
   \<and> orderMessages test_host 1700000010000
       (orderMessages test_host 1700000000000 [timed ''a'' 1700000005, untimed ''b'']) \<noteq>
     orderMessages test_host 1700000000000 [timed ''a'' 1700000005, untimed ''b'']"
  by (simp add: eval_messages)

subsection \<open>The limit of the merged sequence\<close>

text \<open>
  C10. When the handler answers with the merged messages, the sequence it returns is the
  whole merged, ordered sequence unless \<open>limit\<close> is a number greater than zero (so
  when it is missing, not a number, zero or negative), and it is the suffix of the last
  \<open>limit\<close> messages when \<open>limit\<close> is a number greater than zero;
  \<open>mergedCount\<close> is the length of what is returned.
\<close>

theorem messages_limit:
  assumes "ready"
    and "truthy (paramThreadId body) \<or> truthy (summaryThreadId body)"
    and "list_if listParam (paramThreadId body) = Inr rawParam"
    and "list_if listSummary (summaryThreadId body) = Inr rawSummary"
    and "merged = orderMessages h now (rawParam @ rawSummary)"
  shows "\<exists>out. messages_handler h now ready listParam listSummary body =
                 Merged (coalesce (paramThreadId body) JNull)
                   (coalesce (summaryThreadId body) JNull) (length out) out
          \<and> ((\<forall>n. limit body = JNum n \<longrightarrow> n \<le> 0) \<longrightarrow> out = merged)
          \<and> (\<forall>n. limit body = JNum n \<and> 0 < n \<longrightarrow>
                out = drop (length merged - nat n) merged)"
proof -
  have "messages_handler h now ready listParam listSummary body =
          Merged (coalesce (paramThreadId body) JNull)
            (coalesce (summaryThreadId body) JNull)
            (length (limited (limit body) merged)) (limited (limit body) merged)"
    using assms by (auto simp: messages_handler_def Let_def)
  moreover have "(\<forall>n. limit body = JNum n \<longrightarrow> n \<le> 0) \<longrightarrow> limited (limit body) merged = merged"
    by (auto simp: limited_def split: jsval.splits)
  moreover have "\<forall>n. limit body = JNum n \<and> 0 < n \<longrightarrow>
      limited (limit body) merged = drop (length merged - nat n) merged"
    by (auto simp: limited_def nat_diff_distrib')
  ultimately show ?thesis by blast
qed

text \<open>
  Three messages from two threads: with \<open>limit = 2\<close> the last two are returned, with
  \<open>limit = -1\<close> all three.
\<close>

theorem messages_limit_witness:
  "messages_handler test_host 0 True (\<lambda>t. Inr [timed ''b'' 2, timed ''a'' 1])
      (\<lambda>t. Inr [timed ''c'' 3])
      \<lparr>paramThreadId = JStr ''p'', summaryThreadId = JStr ''s'', limit = JNum 2\<rparr> =
     Merged (JStr ''p'') (JStr ''s'') 2 [timed ''b'' 2, timed ''c'' 3]
   \<and> messages_handler test_host 0 True (\<lambda>t. Inr [timed ''b'' 2, timed ''a'' 1])
      (\<lambda>t. Inr [timed ''c'' 3])
      \<lparr>paramThreadId = JStr ''p'', summaryThreadId = JStr ''s'', limit = JNum (- 1)\<rparr> =
     Merged (JStr ''p'') (JStr ''s'') 3 [timed ''a'' 1, timed ''b'' 2, timed ''c'' 3]"
  using messages_limit [where ready = True and h = test_host and now = 0
      and listParam = "\<lambda>t. Inr [timed ''b'' 2, timed ''a'' 1]"
      and listSummary = "\<lambda>t. Inr [timed ''c'' 3]"
      and body = "\<lparr>paramThreadId = JStr ''p'', summaryThreadId = JStr ''s'', limit = JNum 2\<rparr>"
      and rawParam = "[timed ''b'' 2, timed ''a'' 1]" and rawSummary = "[timed ''c'' 3]"
      and merged = "[timed ''a'' 1, timed ''b'' 2, timed ''c'' 3]"]
    messages_limit [where ready = True and h = test_host and now = 0
      and listParam = "\<lambda>t. Inr [timed ''b'' 2, timed ''a'' 1]"
      and listSummary = "\<lambda>t. Inr [timed ''c'' 3]"
      and body = "\<lparr>paramThreadId = JStr ''p'', summaryThreadId = JStr ''s'', limit = JNum (- 1)\<rparr>"
      and rawParam = "[timed ''b'' 2, timed ''a'' 1]" and rawSummary = "[timed ''c'' 3]"
      and merged = "[timed ''a'' 1, timed ''b'' 2, timed ''c'' 3]"]
  by (simp add: eval_messages list_if_def messages_handler_def limited_def)

end
